theory Spec2Isabelle
  imports Main "HOL-Library.Char_ord" "HOL-Library.List_Lexorder"
begin

section \<open>Values exchanged with the outside world\<close>

text \<open>
  The autocomplete service answers with JSON and the checkpoint is a JSON file.
  \<open>response.json()\<close> and \<open>json.load\<close> turn the text into Python values: \<open>None\<close>,
  \<open>bool\<close>, numbers, \<open>str\<close>, \<open>list\<close> and \<open>dict\<close>. A \<open>dict\<close> is kept as an association
  list and read with \<open>map_of\<close> (\<open>k in data\<close>, \<open>data[k]\<close>, \<open>data.get(k, d)\<close>).
  Numbers are integers here; fractional numbers are not represented.
\<close>

datatype json =
    JNull
  | JBool bool
  | JNum int
  | JStr string
  | JArr "json list"
  | JObj "(string \<times> json) list"

section \<open>src/api\_client.py\<close>

text \<open>
  What \<open>self.session.get(url, params=params)\<close> can do on one attempt: raise (timeout,
  connection error), or hand back a response. Of a response the code reads
  \<open>status_code\<close>, \<open>json()\<close> (which raises when the body is not JSON: \<open>None\<close> here) and
  the \<open>Retry-After\<close> header.
\<close>

record response =
  status_code :: int
  json_body :: "json option"
  retry_after :: "string option"

datatype outcome = Raises | Responds response

text \<open>
  \<open>str.isdigit\<close> and \<open>int\<close> on a header value. Header text is Latin-1: besides the
  ASCII digits \<open>isdigit\<close> accepts the superscripts two, three and one, on which
  \<open>int\<close> raises \<open>ValueError\<close> (\<open>None\<close> here).
\<close>

definition ascii_digit :: "char \<Rightarrow> bool" where
  "ascii_digit c = (CHR ''0'' \<le> c \<and> c \<le> CHR ''9'')"

definition isdigit :: "string \<Rightarrow> bool" where
  "isdigit s = (s \<noteq> [] \<and> (\<forall>c \<in> set s. ascii_digit c \<or> c = CHR 0xB2 \<or> c = CHR 0xB3 \<or> c = CHR 0xB9))"

definition digit_val :: "char \<Rightarrow> nat" where
  "digit_val c = of_char c - of_char CHR ''0''"

definition py_int :: "string \<Rightarrow> nat option" where
  "py_int s = (if s \<noteq> [] \<and> (\<forall>c \<in> set s. ascii_digit c)
               then Some (foldl (\<lambda>acc c. 10 * acc + digit_val c) 0 s) else None)"

text \<open>
  Lines 43 to 59: the shapes accepted in a 200 body. The value found is returned as it
  is; nothing checks that it is a list of strings.
\<close>

definition handle_data :: "json \<Rightarrow> json" where
  "handle_data data =
     (case data of
        JArr xs \<Rightarrow> data
      | JObj kvs \<Rightarrow>
          (if ''results'' \<in> fst ` set kvs then the (map_of kvs ''results'')
           else if ''suggestions'' \<in> fst ` set kvs then the (map_of kvs ''suggestions'')
           else if ''names'' \<in> fst ` set kvs then the (map_of kvs ''names'')
           else JArr [])
      | _ \<Rightarrow> JArr [])"

text \<open>
  The retry loop \<open>for attempt in range(max_retries + 1)\<close>. \<open>attempts_loop\<close> runs the
  iterations that are left (first argument), \<open>attempt\<close> is the loop variable, and the
  result is the value returned together with the arguments of every \<open>time.sleep\<close>, in
  order. \<open>net attempt\<close> is what the network does on that attempt. Any exception inside
  the \<open>try\<close> lands in the \<open>except\<close> branch, \<open>on_exception\<close>. The only call site passes
  the defaults \<open>max_retries = 3\<close> and \<open>retry_delay = 60\<close>; both are naturals here, and
  \<open>retry_delay\<close> is a delay that \<open>time.sleep\<close> accepts.

  \<open>time.sleep\<close> keeps its argument as a signed 64-bit count of nanoseconds: for more
  than \<open>sleep_max\<close> seconds it raises \<open>OverflowError\<close>. A \<open>Retry-After\<close> that large
  therefore ends in the \<open>except\<close> branch, which sleeps \<open>retry_delay\<close> instead.
\<close>

datatype step = Return json | Continue nat

definition sleep_max :: nat where
  "sleep_max = 9223372036"

definition on_exception :: "nat \<Rightarrow> nat \<Rightarrow> nat \<Rightarrow> step" where
  "on_exception max_retries retry_delay attempt =
     (if attempt < max_retries then Continue retry_delay else Return (JArr []))"

definition attempt_once :: "outcome \<Rightarrow> nat \<Rightarrow> nat \<Rightarrow> nat \<Rightarrow> step" where
  "attempt_once out max_retries retry_delay attempt =
     (case out of
        Raises \<Rightarrow> on_exception max_retries retry_delay attempt
      | Responds r \<Rightarrow>
          if status_code r = 200 then
            (case json_body r of
               None \<Rightarrow> on_exception max_retries retry_delay attempt
             | Some data \<Rightarrow> Return (handle_data data))
          else if status_code r = 429 then
            (if attempt < max_retries then
               (case retry_after r of
                  None \<Rightarrow> Continue retry_delay
                | Some h \<Rightarrow>
                    if h \<noteq> [] \<and> isdigit h then
                      (case py_int h of
                         None \<Rightarrow> on_exception max_retries retry_delay attempt
                       | Some wait_time \<Rightarrow>
                           if wait_time \<le> sleep_max then Continue wait_time
                           else on_exception max_retries retry_delay attempt)
                    else Continue retry_delay)
             else Return (JArr []))
          else Return (JArr []))"

fun attempts_loop :: "nat \<Rightarrow> (nat \<Rightarrow> outcome) \<Rightarrow> nat \<Rightarrow> nat \<Rightarrow> nat \<Rightarrow> json \<times> nat list" where
  "attempts_loop 0 net max_retries retry_delay attempt = (JArr [], [])"
| "attempts_loop (Suc left) net max_retries retry_delay attempt =
     (case attempt_once (net attempt) max_retries retry_delay attempt of
        Return v \<Rightarrow> (v, [])
      | Continue w \<Rightarrow>
          (let (v, sleeps) = attempts_loop left net max_retries retry_delay (Suc attempt)
           in (v, w # sleeps)))"

definition get_autocomplete_suggestions :: "(nat \<Rightarrow> outcome) \<Rightarrow> nat \<Rightarrow> nat \<Rightarrow> json \<times> nat list" where
  "get_autocomplete_suggestions net max_retries retry_delay =
     attempts_loop (max_retries + 1) net max_retries retry_delay 0"

text \<open>What the signature \<open>-> List[str]\<close> promises of the value returned.\<close>

definition is_str_list :: "json \<Rightarrow> bool" where
  "is_str_list v =
     (case v of JArr xs \<Rightarrow> list_all (\<lambda>x. case x of JStr s \<Rightarrow> True | _ \<Rightarrow> False) xs | _ \<Rightarrow> False)"

section \<open>src/utils/rate\_limiter.py\<close>

text \<open>
  \<open>RateLimiter\<close>: the configured rate and the deque of request timestamps. Time is
  injected: \<open>wait_if_needed lag now l\<close> is a call whose first \<open>time.time()\<close> reads
  \<open>now\<close>; \<open>time.sleep(w)\<close> moves the clock forward by \<open>w\<close>; \<open>lag\<close> is whatever
  else elapses before the second \<open>time.time()\<close> (zero for an exact clock). The
  injected clock counts whole seconds: on whole numbers (below \<open>2^53\<close>) the float
  additions, subtractions and comparisons of the code are exact, so the integers here
  are the floats there. The result is the time at which the call returns and the limiter
  after it. With a rate below one the code can index an empty deque: \<open>IndexError\<close>.
\<close>

record limiter =
  requests_per_minute :: int
  request_timestamps :: "int list"

datatype error = IndexError

definition window_size :: int where
  "window_size = 60"

definition wait_if_needed :: "int \<Rightarrow> int \<Rightarrow> limiter \<Rightarrow> error + int \<times> limiter" where
  "wait_if_needed lag current_time l =
     (let ts = dropWhile (\<lambda>t. t < current_time - window_size) (request_timestamps l) in
      if int (length ts) \<ge> requests_per_minute l then
        (case ts of
           [] \<Rightarrow> Inl IndexError
         | oldest # _ \<Rightarrow>
             (let wait_time = oldest + window_size - current_time;
                  t = (if wait_time > 0 then current_time + wait_time else current_time) + lag
              in Inr (t, l\<lparr>request_timestamps := ts @ [t]\<rparr>)))
      else
        (let t = current_time + lag
         in Inr (t, l\<lparr>request_timestamps := ts @ [t]\<rparr>)))"

text \<open>
  A caller issuing several calls in a row: each entry gives the time that passes before
  the call and the lag inside it. Back-to-back calls on an exact clock are \<open>(0, 0)\<close>.
\<close>

fun await_calls :: "(int \<times> int) list \<Rightarrow> int \<times> limiter \<Rightarrow> error + int \<times> limiter" where
  "await_calls [] st = Inr st"
| "await_calls ((delay, lag) # rest) (now, l) =
     (case wait_if_needed lag (now + delay) l of
        Inl e \<Rightarrow> Inl e
      | Inr st' \<Rightarrow> await_calls rest st')"

section \<open>src/extractors\<close>

subsection \<open>Variants\<close>

record variant =
  version :: string
  character_set :: "string list"
  max_results :: nat

definition letters :: "string list" where
  "letters = map (\<lambda>i. [char_of i]) [of_char CHR ''a'' ..< of_char CHR ''z'' + (1::nat)]"

definition numbers :: "string list" where
  "numbers = map (\<lambda>i. [char_of (of_char CHR ''0'' + i)]) [0 ..< (10::nat)]"

definition V1Extractor :: variant where
  "V1Extractor = \<lparr>version = ''v1'', character_set = letters, max_results = 10\<rparr>"

definition V2Extractor :: variant where
  "V2Extractor = \<lparr>version = ''v2'', character_set = numbers @ letters, max_results = 12\<rparr>"

definition V3Extractor :: variant where
  "V3Extractor = \<lparr>version = ''v3'',
     character_set = numbers @ letters @ [''+'', ''-'', ''.''] @ [[]], max_results = 15\<rparr>"

subsection \<open>Files\<close>

text \<open>
  A file on disk is absent, holds a JSON document, or holds text that \<open>json.load\<close>
  rejects. \<open>open(path, 'w')\<close> truncates the file when it succeeds, and \<open>json.dump\<close>
  writes into it in place: a write that fails after the open leaves a strict prefix of
  an object's text, which is never a JSON document. The three ways a write can go are a
  \<open>fault\<close>.
\<close>

datatype disk_file = Absent | Unparsable | Doc json

datatype fault = NoFault | OpenFails | WriteFails

definition write_file :: "fault \<Rightarrow> json \<Rightarrow> disk_file \<Rightarrow> disk_file" where
  "write_file f doc old = (case f of NoFault \<Rightarrow> Doc doc | OpenFails \<Rightarrow> old | WriteFails \<Rightarrow> Unparsable)"

subsection \<open>BaseExtractor\<close>

text \<open>
  The fields of the extractor (\<open>names\<close>, \<open>visited_prefixes\<close>, \<open>request_count\<close>),
  its two files on disk, and two observations of what it did: \<open>queries\<close>, the prefixes
  sent to the service in order, and \<open>writes\<close>, the number of file writes attempted.
  The surroundings are an \<open>env\<close>: \<open>api i q\<close> is what the client returns for the
  \<open>i\<close>-th query of the run when it asks for \<open>q\<close> (a list of strings, as its signature
  declares), \<open>fault_at j\<close> is how the \<open>j\<close>-th file write goes. The rate limiter only
  delays the call and is modelled on its own above.
\<close>

record extractor =
  names :: "string set"
  visited_prefixes :: "string set"
  request_count :: int
  checkpoint_file :: disk_file
  results_file :: disk_file
  queries :: "string list"
  writes :: nat

record env =
  api :: "nat \<Rightarrow> string \<Rightarrow> string list"
  fault_at :: "nat \<Rightarrow> fault"

text \<open>\<open>list(self.names)\<close> enumerates the set in some order; sorted order is taken here.\<close>

definition str_list :: "string set \<Rightarrow> json" where
  "str_list S = JArr (map JStr (sorted_list_of_set S))"

definition checkpoint_doc :: "extractor \<Rightarrow> json" where
  "checkpoint_doc s = JObj
     [(''names'', str_list (names s)),
      (''visited_prefixes'', str_list (visited_prefixes s)),
      (''request_count'', JNum (request_count s))]"

definition save_checkpoint :: "env \<Rightarrow> extractor \<Rightarrow> extractor" where
  "save_checkpoint E s =
     s\<lparr>checkpoint_file := write_file (fault_at E (writes s)) (checkpoint_doc s) (checkpoint_file s),
       writes := Suc (writes s)\<rparr>"

definition results_doc :: "variant \<Rightarrow> extractor \<Rightarrow> json" where
  "results_doc V s = JObj
     [(''version'', JStr (version V)),
      (''names'', str_list (names s)),
      (''request_count'', JNum (request_count s)),
      (''total_names'', JNum (int (card (names s))))]"

definition save_results :: "env \<Rightarrow> variant \<Rightarrow> extractor \<Rightarrow> extractor" where
  "save_results E V s =
     s\<lparr>results_file := write_file (fault_at E (writes s)) (results_doc V s) (results_file s),
       writes := Suc (writes s)\<rparr>"

text \<open>
  The empty extractor that \<open>__init__\<close> sets up before it looks for a checkpoint.
\<close>

definition empty_extractor :: "disk_file \<Rightarrow> disk_file \<Rightarrow> extractor" where
  "empty_extractor ckpt res =
     \<lparr>names = {}, visited_prefixes = {}, request_count = 0,
      checkpoint_file = ckpt, results_file = res, queries = [], writes = 0\<rparr>"

text \<open>
  Loading does not check what it reads against the annotations \<open>Set[str]\<close> and
  \<open>int\<close>: after \<open>_load_checkpoint\<close> the three attributes hold whatever the document
  gave. The loader is therefore modelled on the attributes as Python values, \<open>attrs\<close>;
  \<open>attrs_of\<close> gives the attributes of an extractor whose fields have their declared
  types, which is where the traversal below starts from.
\<close>

record attrs =
  attr_names :: "json set"
  attr_visited_prefixes :: "json set"
  attr_request_count :: json

definition attrs_of :: "extractor \<Rightarrow> attrs" where
  "attrs_of s =
     \<lparr>attr_names = JStr ` names s, attr_visited_prefixes = JStr ` visited_prefixes s,
      attr_request_count = JNum (request_count s)\<rparr>"

text \<open>
  \<open>set(checkpoint.get(key, []))\<close>. A list gives the set of its members when all are
  hashable (\<open>None\<close>, bools, numbers, strings) and raises \<open>TypeError\<close> when one is a
  list or a dict; of members that are equal in Python (\<open>True == 1\<close>, \<open>False == 0\<close>) the
  set keeps the first. A string gives its characters, a dict its keys; \<open>None\<close>, a
  bool and a number are not iterable: \<open>TypeError\<close>, which is \<open>None\<close> here.
\<close>

fun hashable :: "json \<Rightarrow> bool" where
  "hashable (JArr xs) = False"
| "hashable (JObj kvs) = False"
| "hashable v = True"

fun py_eq :: "json \<Rightarrow> json \<Rightarrow> bool" where
  "py_eq (JBool b) (JNum n) = (n = (if b then 1 else 0))"
| "py_eq (JNum n) (JBool b) = (n = (if b then 1 else 0))"
| "py_eq x y = (x = y)"

fun py_distinct :: "json list \<Rightarrow> json list" where
  "py_distinct [] = []"
| "py_distinct (x # xs) = x # filter (\<lambda>y. \<not> py_eq x y) (py_distinct xs)"

definition py_set :: "json \<Rightarrow> json set option" where
  "py_set v =
     (case v of
        JArr xs \<Rightarrow> if list_all hashable xs then Some (set (py_distinct xs)) else None
      | JStr s \<Rightarrow> Some (set (map (\<lambda>c. JStr [c]) s))
      | JObj kvs \<Rightarrow> Some (set (map (\<lambda>kv. JStr (fst kv)) kvs))
      | _ \<Rightarrow> None)"

definition dict_get :: "(string \<times> json) list \<Rightarrow> string \<Rightarrow> json \<Rightarrow> json" where
  "dict_get kvs k d = (case map_of kvs k of None \<Rightarrow> d | Some v \<Rightarrow> v)"

text \<open>
  \<open>_load_checkpoint\<close>, from the file found at the checkpoint path and the attributes
  before the call. The first component says which log line was written: none (no
  file), \<open>info\<close> "Loaded checkpoint", or \<open>error\<close> "Failed to load checkpoint" from
  the \<open>except\<close> branch. The three assignments run in order inside the \<open>try\<close>, so an
  exception keeps the assignments made before it. A value other than a dict has no
  \<open>get\<close>: \<open>AttributeError\<close>. The request count is assigned as it is found.
\<close>

datatype load_log = NoCheckpoint | Loaded | Failed

definition load_checkpoint :: "disk_file \<Rightarrow> attrs \<Rightarrow> load_log \<times> attrs" where
  "load_checkpoint ckpt a =
     (case ckpt of
        Absent \<Rightarrow> (NoCheckpoint, a)
      | Unparsable \<Rightarrow> (Failed, a)
      | Doc (JObj kvs) \<Rightarrow>
          (case py_set (dict_get kvs ''names'' (JArr [])) of
             None \<Rightarrow> (Failed, a)
           | Some ns \<Rightarrow>
               (case py_set (dict_get kvs ''visited_prefixes'' (JArr [])) of
                  None \<Rightarrow> (Failed, a\<lparr>attr_names := ns\<rparr>)
                | Some vs \<Rightarrow>
                    (Loaded, \<lparr>attr_names = ns, attr_visited_prefixes = vs,
                              attr_request_count = dict_get kvs ''request_count'' (JNum 0)\<rparr>)))
      | Doc _ \<Rightarrow> (Failed, a))"

text \<open>\<open>__init__\<close>: the empty state, then the checkpoint found on disk.\<close>

definition init :: "disk_file \<Rightarrow> load_log \<times> attrs" where
  "init ckpt = load_checkpoint ckpt (attrs_of (empty_extractor ckpt Absent))"

text \<open>\<open>get_suggestions\<close>: one query, the state update, the periodic checkpoint.\<close>

definition get_suggestions :: "env \<Rightarrow> string \<Rightarrow> extractor \<Rightarrow> string list \<times> extractor" where
  "get_suggestions E query s =
     (let response = api E (length (queries s)) query;
          s1 = s\<lparr>queries := queries s @ [query],
                 request_count := request_count s + 1,
                 visited_prefixes := insert query (visited_prefixes s),
                 names := names s \<union> set response\<rparr>
      in (response, if request_count s1 mod 20 = 0 then save_checkpoint E s1 else s1))"

text \<open>The two filters of \<open>_dfs\<close>: \<open>'  ' in prefix\<close>, \<open>startswith(' ')\<close>, \<open>endswith(' ')\<close>.\<close>

fun double_space :: "string \<Rightarrow> bool" where
  "double_space (a # b # rest) = ((a = CHR '' '' \<and> b = CHR '' '') \<or> double_space (b # rest))"
| "double_space p = False"

definition startswith_space :: "string \<Rightarrow> bool" where
  "startswith_space p = (p \<noteq> [] \<and> hd p = CHR '' '')"

definition endswith_space :: "string \<Rightarrow> bool" where
  "endswith_space p = (p \<noteq> [] \<and> last p = CHR '' '')"

text \<open>A \<open>for\<close> loop whose body may run out of fuel.\<close>

fun for_each :: "('a \<Rightarrow> 's \<Rightarrow> 's option) \<Rightarrow> 'a list \<Rightarrow> 's \<Rightarrow> 's option" where
  "for_each body [] s = Some s"
| "for_each body (x # xs) s =
     (case body x s of None \<Rightarrow> None | Some s' \<Rightarrow> for_each body xs s')"

text \<open>
  \<open>_dfs\<close>. The recursion depends on the visited set, so it is given fuel: the first
  argument bounds the depth of nested calls, and \<open>None\<close> means the bound was reached.
  Twelve levels always suffice (\<open>dfs_returns\<close> below).
\<close>

fun dfs :: "nat \<Rightarrow> env \<Rightarrow> variant \<Rightarrow> string \<Rightarrow> extractor \<Rightarrow> extractor option" where
  "dfs 0 E V prefix s = None"
| "dfs (Suc n) E V prefix s =
     (if prefix \<in> visited_prefixes s then Some s
      else
        let s1 = s\<lparr>visited_prefixes := insert prefix (visited_prefixes s)\<rparr> in
        if double_space prefix then Some s1
        else if (startswith_space prefix \<or> endswith_space prefix) \<and> length prefix > 1 then Some s1
        else
          let (suggestions, s2) = get_suggestions E prefix s1 in
          if length suggestions \<ge> max_results V then
            for_each (\<lambda>char t.
                let next_prefix = prefix @ char in
                if length next_prefix \<le> 10 then dfs n E V next_prefix t else Some t)
              (character_set V) s2
          else Some s2)"

text \<open>
  \<open>extract_names\<close>: every member of the character set as a top-level prefix, then
  the final checkpoint and the results file.
\<close>

definition extract_names :: "nat \<Rightarrow> env \<Rightarrow> variant \<Rightarrow> extractor \<Rightarrow> extractor option" where
  "extract_names n E V s =
     (case for_each (\<lambda>char t. if char \<notin> visited_prefixes t then dfs n E V char t else Some t)
             (character_set V) s of
        None \<Rightarrow> None
      | Some t \<Rightarrow> Some (save_results E V (save_checkpoint E t)))"

subsection \<open>Relations between states\<close>

text \<open>
  \<open>grows s s'\<close>: from \<open>s\<close> to \<open>s'\<close> the two sets and the request count did not go
  back, and the queries sent in between are distinct, were not visited in \<open>s\<close> and are
  visited in \<open>s'\<close>.
\<close>

definition grows :: "extractor \<Rightarrow> extractor \<Rightarrow> bool" where
  "grows s s' =
     (names s \<subseteq> names s' \<and> visited_prefixes s \<subseteq> visited_prefixes s'
      \<and> request_count s \<le> request_count s'
      \<and> (\<exists>new. queries s' = queries s @ new \<and> distinct new
            \<and> set new \<inter> visited_prefixes s = {} \<and> set new \<subseteq> visited_prefixes s'))"

text \<open>
  The prefixes a crawl can reach: at most ten non-empty members of the character set,
  one after the other.
\<close>

definition reachable :: "string list \<Rightarrow> string set" where
  "reachable cs = concat ` {ws. set ws \<subseteq> set cs - {[]} \<and> length ws \<le> 10}"

section \<open>The client: response shapes and failures\<close>

lemma handle_data_obj:
  "handle_data (JObj kvs) =
     (case map_of kvs ''results'' of
        Some v \<Rightarrow> v
      | None \<Rightarrow>
          (case map_of kvs ''suggestions'' of
             Some v \<Rightarrow> v
           | None \<Rightarrow> (case map_of kvs ''names'' of Some v \<Rightarrow> v | None \<Rightarrow> JArr [])))"
  by (auto simp: handle_data_def map_of_eq_None_iff split: option.splits)
     (metis domIff dom_map_of_conv_image_fst option.distinct(1))+

lemma attempts_loop_reaches:
  assumes "\<And>i. attempt \<le> i \<Longrightarrow> i < k \<Longrightarrow>
             \<exists>w. attempt_once (net i) max_retries retry_delay i = Continue w"
    and "attempt_once (net k) max_retries retry_delay k = Return v"
    and "attempt \<le> k" and "k - attempt < left"
  shows "fst (attempts_loop left net max_retries retry_delay attempt) = v
     \<and> length (snd (attempts_loop left net max_retries retry_delay attempt)) = k - attempt"
  using assms
proof (induction left arbitrary: attempt)
  case 0
  then show ?case by simp
next
  case (Suc left)
  show ?case
  proof (cases "attempt = k")
    case True
    with Suc.prems(2) show ?thesis by simp
  next
    case False
    with Suc.prems(3) have lt: "attempt < k" by simp
    with Suc.prems(1) [of attempt] obtain w
      where w: "attempt_once (net attempt) max_retries retry_delay attempt = Continue w"
      by auto
    have "fst (attempts_loop left net max_retries retry_delay (Suc attempt)) = v
       \<and> length (snd (attempts_loop left net max_retries retry_delay (Suc attempt))) = k - Suc attempt"
    proof (rule Suc.IH)
      show "attempt_once (net k) max_retries retry_delay k = Return v" by (rule Suc.prems(2))
      show "Suc attempt \<le> k" using lt by simp
      show "k - Suc attempt < left" using lt Suc.prems(4) by simp
      show "\<exists>w. attempt_once (net i) max_retries retry_delay i = Continue w"
        if "Suc attempt \<le> i" "i < k" for i
        using that Suc.prems(1) [of i] by simp
    qed
    with w lt show ?thesis
      by (cases "attempts_loop left net max_retries retry_delay (Suc attempt)") auto
  qed
qed

lemma retried_continues:
  assumes "i < max_retries"
    and "out = Raises \<or> (\<exists>q. out = Responds q
            \<and> (status_code q = 429 \<or> status_code q = 200 \<and> json_body q = None))"
  shows "\<exists>w. attempt_once out max_retries retry_delay i = Continue w"
  using assms
  by (auto simp: attempt_once_def on_exception_def split: option.splits)

text \<open>
  C10. Whichever attempt brings it (the first one, or a later one after attempts that
  were retried: an exception, a 429, a 200 whose body is not JSON), a 200 response whose
  body is an object decides the result: the client returns the value of \<open>results\<close>
  when the field is present, else that of \<open>suggestions\<close>, else that of \<open>names\<close>,
  else the empty list. The value is a function of the payload alone: the query, the
  retry budget, the delay, the attempt number and the other attempts play no part. One
  sleep was made for each earlier attempt.
\<close>

theorem C10_field_priority:
  assumes "k \<le> max_retries" and "retry_delay \<le> sleep_max"
    and "net k = Responds r" and "status_code r = 200" and "json_body r = Some (JObj kvs)"
    and "\<forall>i<k. net i = Raises \<or> (\<exists>q. net i = Responds q
            \<and> (status_code q = 429 \<or> status_code q = 200 \<and> json_body q = None))"
  shows "fst (get_autocomplete_suggestions net max_retries retry_delay) =
     (case map_of kvs ''results'' of
        Some v \<Rightarrow> v
      | None \<Rightarrow>
          (case map_of kvs ''suggestions'' of
             Some v \<Rightarrow> v
           | None \<Rightarrow> (case map_of kvs ''names'' of Some v \<Rightarrow> v | None \<Rightarrow> JArr [])))
     \<and> length (snd (get_autocomplete_suggestions net max_retries retry_delay)) = k"
proof -
  have "attempt_once (net k) max_retries retry_delay k = Return (handle_data (JObj kvs))"
    using assms(3-5) by (simp add: attempt_once_def)
  moreover have "\<exists>w. attempt_once (net i) max_retries retry_delay i = Continue w" if "i < k" for i
  proof (rule retried_continues)
    show "i < max_retries" using that assms(1) by simp
    show "net i = Raises \<or> (\<exists>q. net i = Responds q
            \<and> (status_code q = 429 \<or> status_code q = 200 \<and> json_body q = None))"
      using that assms(6) by blast
  qed
  ultimately have "fst (attempts_loop (max_retries + 1) net max_retries retry_delay 0)
        = handle_data (JObj kvs)
     \<and> length (snd (attempts_loop (max_retries + 1) net max_retries retry_delay 0)) = k - 0"
    using assms(1) by (intro attempts_loop_reaches) auto
  then show ?thesis
    by (simp add: get_autocomplete_suggestions_def handle_data_obj)
qed

theorem C10_field_priority_witness:
  "fst (get_autocomplete_suggestions
     (\<lambda>i. if i = 0 then Responds \<lparr>status_code = 429, json_body = None, retry_after = Some ''5''\<rparr>
           else Responds \<lparr>status_code = 200,
             json_body = Some (JObj [(''names'', JArr [JStr ''n'']), (''suggestions'', JArr [JStr ''s'']),
                                      (''results'', JArr [JStr ''r''])]),
             retry_after = None\<rparr>) 3 60) = JArr [JStr ''r'']
   \<and> length (snd (get_autocomplete_suggestions
     (\<lambda>i. if i = 0 then Responds \<lparr>status_code = 429, json_body = None, retry_after = Some ''5''\<rparr>
           else Responds \<lparr>status_code = 200,
             json_body = Some (JObj [(''names'', JArr [JStr ''n'']), (''suggestions'', JArr [JStr ''s'']),
                                      (''results'', JArr [JStr ''r''])]),
             retry_after = None\<rparr>) 3 60)) = 1"
  using C10_field_priority [of 1 3 60
      "\<lambda>i. if i = 0 then Responds \<lparr>status_code = 429, json_body = None, retry_after = Some ''5''\<rparr>
           else Responds \<lparr>status_code = 200,
             json_body = Some (JObj [(''names'', JArr [JStr ''n'']), (''suggestions'', JArr [JStr ''s'']),
                                      (''results'', JArr [JStr ''r''])]),
             retry_after = None\<rparr>" _
      "[(''names'', JArr [JStr ''n'']), (''suggestions'', JArr [JStr ''s'']),
        (''results'', JArr [JStr ''r''])]"]
  by (simp add: sleep_max_def)

text \<open>
  The failure modes that do degrade to the empty list: as long as no attempt brings a
  200 response with a JSON body, the client returns \<open>[]\<close>, whatever mixture of
  exceptions, 429 and other statuses the attempts meet.
\<close>

lemma attempts_loop_empty:
  assumes "\<And>i r. net i = Responds r \<Longrightarrow> status_code r = 200 \<Longrightarrow> json_body r = None"
  shows "fst (attempts_loop left net max_retries retry_delay attempt) = JArr []"
proof (induction left arbitrary: attempt)
  case 0
  then show ?case by simp
next
  case (Suc left)
  have "attempt_once (net attempt) max_retries retry_delay attempt = Return v \<Longrightarrow> v = JArr []" for v
    using assms [of attempt]
    by (auto simp: attempt_once_def on_exception_def split: outcome.splits option.splits if_splits)
  moreover have "fst (attempts_loop left net max_retries retry_delay (Suc attempt)) = JArr []"
    by (rule Suc.IH)
  ultimately show ?case
    by (cases "attempts_loop left net max_retries retry_delay (Suc attempt)")
       (auto split: step.splits)
qed

lemma failures_degrade_to_empty:
  assumes "\<And>i r. net i = Responds r \<Longrightarrow> status_code r = 200 \<Longrightarrow> json_body r = None"
  shows "fst (get_autocomplete_suggestions net max_retries retry_delay) = JArr []"
  unfolding get_autocomplete_suggestions_def by (rule attempts_loop_empty [OF assms])

text \<open>
  C4. The client is a total function, so nothing escapes to the caller, and the
  failures above give \<open>[]\<close>. A 200 body with a known field is another matter: the
  field's value is returned unchecked. For the body \<open>{"results": null}\<close> the client
  returns \<open>None\<close>, which is not a sequence of strings.
\<close>

theorem C4_field_value_unchecked:
  "get_autocomplete_suggestions
     (\<lambda>i. Responds \<lparr>status_code = 200, json_body = Some (JObj [(''results'', JNull)]),
                     retry_after = None\<rparr>) 3 60 = (JNull, [])
   \<and> \<not> is_str_list JNull"
  by (simp add: get_autocomplete_suggestions_def attempt_once_def handle_data_def is_str_list_def
      eval_nat_numeral)

section \<open>The rate limiter\<close>

lemma wait_if_needed_eq:
  assumes "1 \<le> requests_per_minute l"
  shows "wait_if_needed lag now l =
     (let ts = dropWhile (\<lambda>t. t < now - 60) (request_timestamps l);
          t = (if requests_per_minute l \<le> int (length ts) \<and> 0 < hd ts + 60 - now
               then hd ts + 60 else now) + lag
      in Inr (t, l\<lparr>request_timestamps := ts @ [t]\<rparr>))"
proof -
  define ts where "ts = dropWhile (\<lambda>t. t < now - 60) (request_timestamps l)"
  show ?thesis
    unfolding wait_if_needed_def window_size_def Let_def ts_def [symmetric]
    using assms by (cases ts) auto
qed

lemma three_calls:
  assumes "0 \<le> d2" "0 \<le> g2" "0 \<le> d3" "0 \<le> g3"
  shows "\<exists>t3 l3. await_calls [(d1, g1), (d2, g2), (d3, g3)]
            (now, \<lparr>requests_per_minute = 2, request_timestamps = []\<rparr>) = Inr (t3, l3)
          \<and> last (request_timestamps l3) = t3
          \<and> (now + d1 + g1) + 60 \<le> t3"
  using assms
  by (auto simp: wait_if_needed_def window_size_def Let_def split: list.splits)

lemma later_call_blocked:
  assumes "0 < d" and "d \<le> 60"
  shows "wait_if_needed 0 (60 + d) \<lparr>requests_per_minute = 1, request_timestamps = [0, 60]\<rparr>
     = Inr (120, \<lparr>requests_per_minute = 1, request_timestamps = [60, 120]\<rparr>)"
  using assms by (simp add: wait_if_needed_def window_size_def Let_def)

text \<open>
  What holds of the claim: with a rate of at least one, a call drops the timestamps
  older than \<open>now - 60\<close> from the front and, when the remaining count has reached the
  rate and \<open>oldest + 60 - now\<close> is positive, sleeps that long
  (\<open>wait_if_needed_eq\<close>); with a rate of two and an empty window, of three calls in
  a row the third returns no earlier than sixty seconds after the timestamp of the first
  (\<open>three_calls\<close>).

  C8. The claim has the limiter look again after suspending, and record the timestamp
  only when the window has room. The code looks once. With a rate of one and an exact
  clock, three calls in a row from time 0: the second sleeps until 60 and leaves the
  timestamps \<open>[0, 60]\<close>; the third, at that moment, drops nothing (the timestamp 0 is
  exactly sixty seconds old, not older), finds the count 2 above the rate 1, computes a
  wait of zero, and records 60 at once. Two requests pass at time 60 under a rate of one
  per minute. Had any time passed before the third call, it would have slept until 120
  (\<open>later_call_blocked\<close>).
\<close>

theorem C8_third_call_not_blocked:
  "await_calls [(0, 0), (0, 0)] (0, \<lparr>requests_per_minute = 1, request_timestamps = []\<rparr>)
     = Inr (60, \<lparr>requests_per_minute = 1, request_timestamps = [0, 60]\<rparr>)
   \<and> requests_per_minute \<lparr>requests_per_minute = 1, request_timestamps = [0, 60]\<rparr>
       \<le> int (length (dropWhile (\<lambda>t. t < 60 - window_size) [0, 60]))
   \<and> wait_if_needed 0 60 \<lparr>requests_per_minute = 1, request_timestamps = [0, 60]\<rparr>
     = Inr (60, \<lparr>requests_per_minute = 1, request_timestamps = [0, 60, 60]\<rparr>)
   \<and> await_calls [(0, 0), (0, 0), (0, 0)] (0, \<lparr>requests_per_minute = 1, request_timestamps = []\<rparr>)
     = Inr (60, \<lparr>requests_per_minute = 1, request_timestamps = [0, 60, 60]\<rparr>)"
  by (simp add: wait_if_needed_def window_size_def Let_def)

section \<open>Checkpoints\<close>

lemma py_eq_JStr: "py_eq (JStr a) y \<longleftrightarrow> JStr a = y"
  by (cases y) auto

lemma py_distinct_strings: "set (py_distinct (map JStr xs)) = JStr ` set xs"
proof (induction xs)
  case Nil
  then show ?case by simp
next
  case (Cons x xs)
  then show ?case by (auto simp: py_eq_JStr)
qed

lemma py_set_str_list: "finite S \<Longrightarrow> py_set (str_list S) = Some (JStr ` S)"
  by (simp add: py_set_def str_list_def py_distinct_strings list_all_iff)

lemma empty_attrs:
  "attrs_of (empty_extractor ckpt res)
     = \<lparr>attr_names = {}, attr_visited_prefixes = {}, attr_request_count = JNum 0\<rparr>"
  by (simp add: attrs_of_def empty_extractor_def)

lemma load_saved:
  assumes "finite (names s)" "finite (visited_prefixes s)"
  shows "init (Doc (checkpoint_doc s)) = (Loaded, attrs_of s)"
  using assms
  by (simp add: init_def load_checkpoint_def checkpoint_doc_def dict_get_def py_set_str_list
      attrs_of_def)

lemma save_checkpoint_file:
  "checkpoint_file (save_checkpoint E s) =
     (case fault_at E (writes s) of
        NoFault \<Rightarrow> Doc (checkpoint_doc s)
      | OpenFails \<Rightarrow> checkpoint_file s
      | WriteFails \<Rightarrow> Unparsable)"
  by (simp add: save_checkpoint_def write_file_def)

lemma save_checkpoint_fields:
  "names (save_checkpoint E s) = names s"
  "visited_prefixes (save_checkpoint E s) = visited_prefixes s"
  "request_count (save_checkpoint E s) = request_count s"
  "queries (save_checkpoint E s) = queries s"
  "results_file (save_checkpoint E s) = results_file s"
  "writes (save_checkpoint E s) = Suc (writes s)"
  by (simp_all add: save_checkpoint_def)

lemma save_results_fields:
  "names (save_results E V s) = names s"
  "visited_prefixes (save_results E V s) = visited_prefixes s"
  "request_count (save_results E V s) = request_count s"
  "queries (save_results E V s) = queries s"
  "checkpoint_file (save_results E V s) = checkpoint_file s"
  by (simp_all add: save_results_def)

lemma init_unparsable:
  "init Unparsable = (Failed, attrs_of (empty_extractor Unparsable Absent))"
  by (simp add: init_def load_checkpoint_def)

text \<open>
  C2, as the code has it. \<open>_save_checkpoint\<close> writes the checkpoint file in place;
  there is no temporary file and no atomic replace. Whatever happens to the write, the
  call returns and the extractor's names, visited prefixes and request count are
  untouched, so the crawl goes on. On disk: a write that succeeds leaves the document
  of the current state, which a restart loads back field for field; an open that fails
  leaves the prior file; a write that fails after the open leaves an unparsable file,
  and a restart that finds it logs the failure and starts from the empty state.
\<close>

theorem C2_save_checkpoint:
  "names (save_checkpoint E s) = names s
   \<and> visited_prefixes (save_checkpoint E s) = visited_prefixes s
   \<and> request_count (save_checkpoint E s) = request_count s
   \<and> checkpoint_file (save_checkpoint E s) =
       (case fault_at E (writes s) of
          NoFault \<Rightarrow> Doc (checkpoint_doc s)
        | OpenFails \<Rightarrow> checkpoint_file s
        | WriteFails \<Rightarrow> Unparsable)
   \<and> init Unparsable = (Failed, attrs_of (empty_extractor Unparsable Absent))
   \<and> (finite (names s) \<and> finite (visited_prefixes s) \<longrightarrow>
        init (Doc (checkpoint_doc s)) = (Loaded, attrs_of s))"
  by (simp add: save_checkpoint_fields save_checkpoint_file init_unparsable load_saved)

theorem C2_save_checkpoint_witness:
  "finite {''car'', ''cat''} \<and> finite {''c'', ''ca''}
   \<and> init (Doc (checkpoint_doc
        \<lparr>names = {''car'', ''cat''}, visited_prefixes = {''c'', ''ca''}, request_count = 2,
         checkpoint_file = Absent, results_file = Absent, queries = [''c'', ''ca''], writes = 0\<rparr>))
     = (Loaded,
        \<lparr>attr_names = {JStr ''car'', JStr ''cat''}, attr_visited_prefixes = {JStr ''c'', JStr ''ca''},
         attr_request_count = JNum 2\<rparr>)"
  using C2_save_checkpoint [of "\<lparr>api = (\<lambda>i q. []), fault_at = (\<lambda>j. NoFault)\<rparr>"
      "\<lparr>names = {''car'', ''cat''}, visited_prefixes = {''c'', ''ca''}, request_count = 2,
        checkpoint_file = Absent, results_file = Absent, queries = [''c'', ''ca''], writes = 0\<rparr>"]
  by (simp add: attrs_of_def)

text \<open>
  The claim fails on a write that breaks off after the open. The prior checkpoint
  (names car and cat, prefixes c and ca, two requests) loads; the crawl goes one request
  further and its next save fails in mid-write: the file is now unparsable, the prior
  checkpoint is gone, and a restart begins from the empty state.
\<close>

theorem C2_torn_checkpoint_counterexample:
  "init (Doc (JObj [(''names'', JArr [JStr ''car'', JStr ''cat'']),
                    (''visited_prefixes'', JArr [JStr ''c'', JStr ''ca'']),
                    (''request_count'', JNum 2)]))
     = (Loaded,
        \<lparr>attr_names = {JStr ''car'', JStr ''cat''}, attr_visited_prefixes = {JStr ''c'', JStr ''ca''},
         attr_request_count = JNum 2\<rparr>)
   \<and> checkpoint_file (save_checkpoint \<lparr>api = (\<lambda>i q. []), fault_at = (\<lambda>j. WriteFails)\<rparr>
         \<lparr>names = {''car'', ''cat''}, visited_prefixes = {''c'', ''ca'', ''cb''}, request_count = 3,
          checkpoint_file = Doc (JObj [(''names'', JArr [JStr ''car'', JStr ''cat'']),
                    (''visited_prefixes'', JArr [JStr ''c'', JStr ''ca'']),
                    (''request_count'', JNum 2)]),
          results_file = Absent, queries = [''cb''], writes = 0\<rparr>)
     = Unparsable
   \<and> init Unparsable =
       (Failed, \<lparr>attr_names = {}, attr_visited_prefixes = {}, attr_request_count = JNum 0\<rparr>)"
  by (simp add: init_def load_checkpoint_def empty_attrs dict_get_def py_set_def
      py_eq_JStr save_checkpoint_def write_file_def insert_commute)

text \<open>
  The failures that leave the empty state: the file does not parse, the document is not
  an object, or its \<open>names\<close> cannot be made a set.
\<close>

lemma init_failed_early:
  assumes "ckpt = Unparsable \<or> (\<exists>j. ckpt = Doc j \<and> (\<forall>kvs. j \<noteq> JObj kvs))
         \<or> (\<exists>kvs. ckpt = Doc (JObj kvs) \<and> py_set (dict_get kvs ''names'' (JArr [])) = None)"
  shows "init ckpt = (Failed, attrs_of (empty_extractor ckpt Absent))"
  using assms
  by (auto simp: init_def load_checkpoint_def split: disk_file.splits json.splits option.splits)

text \<open>
  The failure that does not: when \<open>names\<close> loads and \<open>visited_prefixes\<close> raises, the
  names just assigned stay, beside an empty visited set and a request count of 0.
\<close>

lemma init_names_kept:
  assumes "py_set (dict_get kvs ''names'' (JArr [])) = Some ns"
    and "py_set (dict_get kvs ''visited_prefixes'' (JArr [])) = None"
  shows "init (Doc (JObj kvs))
     = (Failed, \<lparr>attr_names = ns, attr_visited_prefixes = {}, attr_request_count = JNum 0\<rparr>)"
  using assms by (simp add: init_def load_checkpoint_def empty_attrs)

text \<open>
  C9. A failed load is meant to leave the empty state, and the failures above do. For the
  checkpoint \<open>{"names": ["cat"], "visited_prefixes": 5}\<close> the code assigns the names,
  fails on \<open>set(5)\<close>, logs the failure and goes on with the name \<open>cat\<close> restored:
  the crawl starts from a partially restored state.
\<close>

theorem C9_partial_restore:
  "init (Doc (JObj [(''names'', JArr [JStr ''cat'']), (''visited_prefixes'', JNum 5)]))
     = (Failed,
        \<lparr>attr_names = {JStr ''cat''}, attr_visited_prefixes = {}, attr_request_count = JNum 0\<rparr>)
   \<and> \<lparr>attr_names = {JStr ''cat''}, attr_visited_prefixes = {}, attr_request_count = JNum 0\<rparr>
       \<noteq> attrs_of (empty_extractor
           (Doc (JObj [(''names'', JArr [JStr ''cat'']), (''visited_prefixes'', JNum 5)])) Absent)"
  by (simp add: init_def load_checkpoint_def empty_attrs dict_get_def py_set_def)

section \<open>The traversal\<close>

subsection \<open>States only grow\<close>

lemma grows_refl: "grows s s"
  by (simp add: grows_def)

lemma grows_trans:
  assumes "grows s t" "grows t u"
  shows "grows s u"
proof -
  from assms(1) obtain n1 where n1: "queries t = queries s @ n1" "distinct n1"
    "set n1 \<inter> visited_prefixes s = {}" "set n1 \<subseteq> visited_prefixes t"
    by (auto simp: grows_def)
  from assms(2) obtain n2 where n2: "queries u = queries t @ n2" "distinct n2"
    "set n2 \<inter> visited_prefixes t = {}" "set n2 \<subseteq> visited_prefixes u"
    by (auto simp: grows_def)
  have sub: "visited_prefixes s \<subseteq> visited_prefixes t" "visited_prefixes t \<subseteq> visited_prefixes u"
    using assms by (auto simp: grows_def)
  have "queries u = queries s @ (n1 @ n2)"
    using n1 n2 by simp
  moreover have "distinct (n1 @ n2)"
    using n1 n2 by auto
  moreover have "set (n1 @ n2) \<inter> visited_prefixes s = {}"
    using n1 n2 sub by auto
  moreover have "set (n1 @ n2) \<subseteq> visited_prefixes u"
    using n1 n2 sub by auto
  ultimately have "\<exists>new. queries u = queries s @ new \<and> distinct new
      \<and> set new \<inter> visited_prefixes s = {} \<and> set new \<subseteq> visited_prefixes u"
    by blast
  moreover have "names s \<subseteq> names u" "visited_prefixes s \<subseteq> visited_prefixes u"
    "request_count s \<le> request_count u"
    using assms by (auto simp: grows_def)
  ultimately show ?thesis
    by (simp add: grows_def)
qed

lemma grows_save_checkpoint: "grows s (save_checkpoint E s)"
  by (simp add: grows_def save_checkpoint_def)

lemma grows_save_results: "grows s (save_results E V s)"
  by (simp add: grows_def save_results_def)

lemma get_suggestions_fields:
  "fst (get_suggestions E q s) = api E (length (queries s)) q"
  "names (snd (get_suggestions E q s)) = names s \<union> set (api E (length (queries s)) q)"
  "visited_prefixes (snd (get_suggestions E q s)) = insert q (visited_prefixes s)"
  "request_count (snd (get_suggestions E q s)) = request_count s + 1"
  "queries (snd (get_suggestions E q s)) = queries s @ [q]"
  by (simp_all add: get_suggestions_def Let_def save_checkpoint_def)

lemma grows_query:
  assumes "prefix \<notin> visited_prefixes s"
  shows "grows s (snd (get_suggestions E prefix (s\<lparr>visited_prefixes := insert prefix (visited_prefixes s)\<rparr>)))"
  using assms by (auto simp: grows_def get_suggestions_fields)

lemma grows_mark: "grows s (s\<lparr>visited_prefixes := insert prefix (visited_prefixes s)\<rparr>)"
  by (auto simp: grows_def)

lemma for_each_grows:
  assumes "\<And>x t t'. x \<in> set xs \<Longrightarrow> body x t = Some t' \<Longrightarrow> grows t t'"
    and "for_each body xs s = Some s'"
  shows "grows s s'"
  using assms
proof (induction xs arbitrary: s)
  case Nil
  then show ?case by (simp add: grows_refl)
next
  case (Cons x xs)
  from Cons.prems(2) obtain t where t: "body x s = Some t" "for_each body xs t = Some s'"
    by (auto split: option.splits)
  have "grows s t" using Cons.prems(1) [of x s t] t(1) by simp
  moreover have "grows t s'"
    by (rule Cons.IH [OF _ t(2)]) (auto intro: Cons.prems(1))
  ultimately show ?case by (rule grows_trans)
qed

lemma dfs_visited: "prefix \<in> visited_prefixes s \<Longrightarrow> dfs (Suc n) E V prefix s = Some s"
  by simp

lemma dfs_unvisited:
  assumes "prefix \<notin> visited_prefixes s"
  shows "dfs (Suc n) E V prefix s =
     (if double_space prefix
         \<or> (startswith_space prefix \<or> endswith_space prefix) \<and> length prefix > 1
      then Some (s\<lparr>visited_prefixes := insert prefix (visited_prefixes s)\<rparr>)
      else if length (api E (length (queries s)) prefix) \<ge> max_results V
      then for_each (\<lambda>char t. if length (prefix @ char) \<le> 10
                                   then dfs n E V (prefix @ char) t else Some t)
             (character_set V)
             (snd (get_suggestions E prefix (s\<lparr>visited_prefixes := insert prefix (visited_prefixes s)\<rparr>)))
      else Some (snd (get_suggestions E prefix (s\<lparr>visited_prefixes := insert prefix (visited_prefixes s)\<rparr>))))"
  using assms by (auto simp: Let_def split_beta get_suggestions_fields(1))

lemma dfs_grows: "dfs n E V prefix s = Some s' \<Longrightarrow> grows s s'"
proof (induction n arbitrary: prefix s s')
  case 0
  then show ?case by simp
next
  case (Suc n)
  show ?case
  proof (cases "prefix \<in> visited_prefixes s")
    case True
    with Suc.prems show ?thesis by (simp add: grows_refl)
  next
    case False
    let ?s1 = "s\<lparr>visited_prefixes := insert prefix (visited_prefixes s)\<rparr>"
    let ?s2 = "snd (get_suggestions E prefix ?s1)"
    let ?body = "\<lambda>char t. if length (prefix @ char) \<le> 10 then dfs n E V (prefix @ char) t else Some t"
    have s2: "grows s ?s2" using False by (rule grows_query)
    from Suc.prems have "s' = ?s1 \<or> s' = ?s2 \<or> for_each ?body (character_set V) ?s2 = Some s'"
      unfolding dfs_unvisited [OF False] by (auto split: if_splits)
    then consider "s' = ?s1" | "s' = ?s2" | "for_each ?body (character_set V) ?s2 = Some s'"
      by blast
    then show ?thesis
    proof cases
      case 1
      then show ?thesis by (simp add: grows_mark)
    next
      case 2
      then show ?thesis using s2 by simp
    next
      case 3
      have "grows ?s2 s'"
      proof (rule for_each_grows [OF _ 3])
        fix x t t'
        assume "?body x t = Some t'"
        then show "grows t t'"
          using Suc.IH by (auto simp: grows_refl split: if_splits)
      qed
      with s2 show ?thesis by (rule grows_trans)
    qed
  qed
qed

subsection \<open>Loops\<close>

lemma for_each_invariant:
  assumes "\<And>x t t'. x \<in> set xs \<Longrightarrow> I t \<Longrightarrow> body x t = Some t' \<Longrightarrow> I t'"
    and "I s" and "for_each body xs s = Some s'"
  shows "I s'"
  using assms
proof (induction xs arbitrary: s)
  case Nil
  then show ?case by simp
next
  case (Cons x xs)
  from Cons.prems(3) obtain t where t: "body x s = Some t" "for_each body xs t = Some s'"
    by (auto split: option.splits)
  have "I t" using Cons.prems(1) [of x s t] Cons.prems(2) t(1) by simp
  then show ?case
    by (rule Cons.IH [OF _ _ t(2), rotated]) (auto intro: Cons.prems(1))
qed

lemma for_each_mono:
  assumes "\<And>x t t'. x \<in> set xs \<Longrightarrow> f x t = Some t' \<Longrightarrow> g x t = Some t'"
    and "for_each f xs s = Some s'"
  shows "for_each g xs s = Some s'"
  using assms
proof (induction xs arbitrary: s)
  case Nil
  then show ?case by simp
next
  case (Cons x xs)
  from Cons.prems(2) obtain t where t: "f x s = Some t" "for_each f xs t = Some s'"
    by (auto split: option.splits)
  have "g x s = Some t" using Cons.prems(1) [of x s t] t(1) by simp
  moreover have "for_each g xs t = Some s'"
    by (rule Cons.IH [OF _ t(2)]) (auto intro: Cons.prems(1))
  ultimately show ?case by simp
qed

lemma for_each_returns:
  assumes "\<And>x t. x \<in> set xs \<Longrightarrow> I t \<Longrightarrow> \<exists>t'. body x t = Some t' \<and> I t'"
    and "I s"
  shows "\<exists>s'. for_each body xs s = Some s' \<and> I s'"
  using assms
proof (induction xs arbitrary: s)
  case Nil
  then show ?case by simp
next
  case (Cons x xs)
  from Cons.prems(1) [of x s] Cons.prems(2) obtain t where t: "body x s = Some t" "I t"
    by auto
  have "\<exists>s'. for_each body xs t = Some s' \<and> I s'"
    by (rule Cons.IH [OF _ t(2)]) (auto intro: Cons.prems(1))
  with t(1) show ?case by simp
qed

subsection \<open>What a call visits\<close>

lemma children_grow:
  assumes "for_each (\<lambda>char t. if length (prefix @ char) \<le> 10
                              then dfs n E V (prefix @ char) t else Some t) cs s = Some s'"
  shows "grows s s'"
proof (rule for_each_grows [OF _ assms])
  fix x t t'
  assume "(if length (prefix @ x) \<le> 10 then dfs n E V (prefix @ x) t else Some t) = Some t'"
  then show "grows t t'"
    by (auto simp: grows_refl dfs_grows split: if_splits)
qed

lemma dfs_unvisited_cases:
  assumes "dfs (Suc n) E V prefix s = Some s'" and "prefix \<notin> visited_prefixes s"
  shows "s' = s\<lparr>visited_prefixes := insert prefix (visited_prefixes s)\<rparr>
     \<or> s' = snd (get_suggestions E prefix (s\<lparr>visited_prefixes := insert prefix (visited_prefixes s)\<rparr>))
     \<or> for_each (\<lambda>char t. if length (prefix @ char) \<le> 10
                              then dfs n E V (prefix @ char) t else Some t)
          (character_set V)
          (snd (get_suggestions E prefix (s\<lparr>visited_prefixes := insert prefix (visited_prefixes s)\<rparr>)))
        = Some s'"
  using assms(1) unfolding dfs_unvisited [OF assms(2)] by (auto split: if_splits)




subsection \<open>Fuel\<close>

lemma dfs_fuel_Suc: "dfs n E V prefix s = Some s' \<Longrightarrow> dfs (Suc n) E V prefix s = Some s'"
proof (induction n arbitrary: prefix s s')
  case 0
  then show ?case by simp
next
  case (Suc n)
  show ?case
  proof (cases "prefix \<in> visited_prefixes s")
    case True
    with Suc.prems show ?thesis by simp
  next
    case False
    let ?s2 = "snd (get_suggestions E prefix (s\<lparr>visited_prefixes := insert prefix (visited_prefixes s)\<rparr>))"
    have "for_each (\<lambda>char t. if length (prefix @ char) \<le> 10
                 then dfs (Suc n) E V (prefix @ char) t else Some t) (character_set V) ?s2 = Some s'"
      if "for_each (\<lambda>char t. if length (prefix @ char) \<le> 10
                 then dfs n E V (prefix @ char) t else Some t) (character_set V) ?s2 = Some s'"
      by (rule for_each_mono [OF _ that]) (auto simp del: dfs.simps dest: Suc.IH split: if_splits)
    with Suc.prems show ?thesis
      unfolding dfs_unvisited [OF False, of "Suc n"] dfs_unvisited [OF False, of n]
      by (auto simp del: dfs.simps split: if_splits)
  qed
qed

lemma dfs_fuel_mono:
  assumes "dfs n E V prefix s = Some s'" and "n \<le> m"
  shows "dfs m E V prefix s = Some s'"
  using assms(2,1) by (induction rule: dec_induct) (auto simp del: dfs.simps dest: dfs_fuel_Suc)

lemma dfs_returns: "Suc (11 - length prefix) \<le> n \<Longrightarrow> \<exists>s'. dfs n E V prefix s = Some s'"
proof (induction n arbitrary: prefix s)
  case 0
  then show ?case by simp
next
  case (Suc n)
  show ?case
  proof (cases "prefix \<in> visited_prefixes s")
    case True
    then show ?thesis by simp
  next
    case False
    let ?s2 = "snd (get_suggestions E prefix (s\<lparr>visited_prefixes := insert prefix (visited_prefixes s)\<rparr>))"
    let ?body = "\<lambda>char t. if length (prefix @ char) \<le> 10 then dfs n E V (prefix @ char) t else Some t"
    have "\<exists>s'. for_each ?body (character_set V) ?s2 = Some s' \<and> prefix \<in> visited_prefixes s'"
    proof (rule for_each_returns [where I = "\<lambda>t::extractor. prefix \<in> visited_prefixes t"])
      show "prefix \<in> visited_prefixes ?s2" by (simp add: get_suggestions_fields)
    next
      fix x and t :: extractor
      assume t: "prefix \<in> visited_prefixes t"
      show "\<exists>t'. ?body x t = Some t' \<and> prefix \<in> visited_prefixes t'"
      proof (cases "length (prefix @ x) \<le> 10")
        case False
        with t show ?thesis by simp
      next
        case True
        show ?thesis
        proof (cases "x = []")
          case True
          from \<open>length (prefix @ x) \<le> 10\<close> Suc.prems obtain m where "n = Suc m"
            by (cases n) auto
          with True t show ?thesis by simp
        next
          case False
          with True Suc.prems have "Suc (11 - length (prefix @ x)) \<le> n"
            by (cases x) auto
          from Suc.IH [OF this] obtain t' where t': "dfs n E V (prefix @ x) t = Some t'"
            by blast
          from dfs_grows [OF this] t have "prefix \<in> visited_prefixes t'"
            by (auto simp: grows_def)
          with t' True show ?thesis by simp
        qed
      qed
    qed
    then show ?thesis
      unfolding dfs_unvisited [OF False] by auto
  qed
qed

subsection \<open>Reachable prefixes\<close>

lemma length_le_concat:
  "[] \<notin> set ws \<Longrightarrow> length ws \<le> length (concat ws)"
proof (induction ws)
  case Nil
  then show ?case by simp
next
  case (Cons w ws)
  then have "1 \<le> length w" by (cases w) auto
  with Cons show ?case by simp
qed

lemma member_reachable: "c \<in> set cs \<Longrightarrow> c \<in> reachable cs"
proof (cases "c = []")
  case True
  have "concat ([] :: string list) \<in> reachable cs"
    unfolding reachable_def by (rule imageI) simp
  with True show ?thesis by simp
next
  case False
  assume "c \<in> set cs"
  with False have "concat [c] \<in> reachable cs"
    unfolding reachable_def by (intro imageI) simp
  then show ?thesis by simp
qed

lemma reachable_step:
  assumes "p \<in> reachable cs" and "c \<in> set cs" and "length (p @ c) \<le> 10"
  shows "p @ c \<in> reachable cs"
proof (cases "c = []")
  case True
  with assms(1) show ?thesis by simp
next
  case False
  from assms(1) obtain ws where ws: "p = concat ws" "set ws \<subseteq> set cs - {[]}" "length ws \<le> 10"
    by (auto simp: reachable_def)
  from ws(2) have "[] \<notin> set ws" by auto
  then have "length ws \<le> length p" unfolding ws(1) by (rule length_le_concat)
  moreover from False have "1 \<le> length c" by (cases c) auto
  ultimately have "length (ws @ [c]) \<le> 10" using assms(3) by simp
  moreover have "set (ws @ [c]) \<subseteq> set cs - {[]}" using ws(2) assms(2) False by auto
  ultimately have "concat (ws @ [c]) \<in> reachable cs"
    unfolding reachable_def by (intro imageI) simp
  then show ?thesis by (simp add: ws(1))
qed

lemma finite_reachable: "finite (reachable cs)"
  unfolding reachable_def by (intro finite_imageI finite_lists_length_le) simp

lemma card_reachable: "card (reachable cs) \<le> (\<Sum>i\<le>10. length cs ^ i)"
proof -
  let ?C = "set cs - {[]}"
  have "card (reachable cs) \<le> card {ws. set ws \<subseteq> ?C \<and> length ws \<le> 10}"
    unfolding reachable_def by (intro card_image_le finite_lists_length_le) simp
  also have "\<dots> = (\<Sum>i\<le>10. card ?C ^ i)"
    by (rule card_lists_length_le) simp
  also have "\<dots> \<le> (\<Sum>i\<le>10. length cs ^ i)"
  proof (rule sum_mono)
    fix i
    have "card ?C \<le> card (set cs)" by (intro card_mono) auto
    also have "\<dots> \<le> length cs" by (rule card_length)
    finally show "card ?C ^ i \<le> length cs ^ i" by (rule power_mono) simp
  qed
  finally show ?thesis .
qed

lemma geometric_bound:
  assumes "1 \<le> (k::nat)"
  shows "(\<Sum>i\<le>10. k ^ i) \<le> 11 * k ^ 10"
proof -
  have "(\<Sum>i\<le>10. k ^ i) \<le> (\<Sum>i\<le>(10::nat). k ^ 10)"
    by (rule sum_mono) (use assms in \<open>auto intro: power_increasing\<close>)
  then show ?thesis by simp
qed

lemma dfs_reachable:
  "dfs n E V prefix s = Some s' \<Longrightarrow> prefix \<in> reachable (character_set V) \<Longrightarrow>
     visited_prefixes s' \<subseteq> visited_prefixes s \<union> reachable (character_set V)"
proof (induction n arbitrary: prefix s s')
  case 0
  then show ?case by simp
next
  case (Suc n)
  let ?A = "visited_prefixes s \<union> reachable (character_set V)"
  show ?case
  proof (cases "prefix \<in> visited_prefixes s")
    case True
    with Suc.prems show ?thesis by auto
  next
    case False
    let ?s1 = "s\<lparr>visited_prefixes := insert prefix (visited_prefixes s)\<rparr>"
    let ?s2 = "snd (get_suggestions E prefix ?s1)"
    let ?body = "\<lambda>char t. if length (prefix @ char) \<le> 10 then dfs n E V (prefix @ char) t else Some t"
    from Suc.prems(1) False
    have "s' = ?s1 \<or> s' = ?s2 \<or> for_each ?body (character_set V) ?s2 = Some s'"
      by (rule dfs_unvisited_cases)
    moreover have s12: "visited_prefixes ?s1 \<subseteq> ?A" "visited_prefixes ?s2 \<subseteq> ?A"
      using Suc.prems(2) by (auto simp: get_suggestions_fields)
    moreover have "visited_prefixes s' \<subseteq> ?A" if "for_each ?body (character_set V) ?s2 = Some s'"
    proof (rule for_each_invariant [where I = "\<lambda>t::extractor. visited_prefixes t \<subseteq> ?A", OF _ _ that])
      show "visited_prefixes ?s2 \<subseteq> ?A" by (rule s12)
    next
      fix x and t t' :: extractor
      assume x: "x \<in> set (character_set V)" and t: "visited_prefixes t \<subseteq> ?A"
        and b: "?body x t = Some t'"
      show "visited_prefixes t' \<subseteq> ?A"
      proof (cases "length (prefix @ x) \<le> 10")
        case True
        with b have "dfs n E V (prefix @ x) t = Some t'" by simp
        moreover have "prefix @ x \<in> reachable (character_set V)"
          using Suc.prems(2) x True by (rule reachable_step)
        ultimately have "visited_prefixes t' \<subseteq> visited_prefixes t \<union> reachable (character_set V)"
          by (rule Suc.IH)
        with t show ?thesis by auto
      next
        case False
        with b t show ?thesis by simp
      qed
    qed
    ultimately show ?thesis by blast
  qed
qed

subsection \<open>The whole crawl\<close>

lemma extract_names_loop:
  assumes "extract_names n E V s = Some s'"
  obtains t where
    "for_each (\<lambda>char t. if char \<notin> visited_prefixes t then dfs n E V char t else Some t)
       (character_set V) s = Some t"
    and "s' = save_results E V (save_checkpoint E t)"
  using assms by (auto simp: extract_names_def split: option.splits)

lemma extract_names_grows:
  assumes "extract_names n E V s = Some s'"
  shows "grows s s'"
proof -
  from assms obtain t where
    t: "for_each (\<lambda>char t. if char \<notin> visited_prefixes t then dfs n E V char t else Some t)
       (character_set V) s = Some t"
    and s': "s' = save_results E V (save_checkpoint E t)"
    by (rule extract_names_loop)
  have "grows s t"
    by (rule for_each_grows [OF _ t]) (auto simp: grows_refl dfs_grows split: if_splits)
  moreover have "grows t s'"
    unfolding s' by (rule grows_trans [OF grows_save_checkpoint grows_save_results])
  ultimately show ?thesis by (rule grows_trans)
qed

lemma extract_names_reachable:
  assumes "extract_names n E V s = Some s'"
  shows "visited_prefixes s' \<subseteq> visited_prefixes s \<union> reachable (character_set V)"
proof -
  let ?A = "visited_prefixes s \<union> reachable (character_set V)"
  from assms obtain t where
    t: "for_each (\<lambda>char t. if char \<notin> visited_prefixes t then dfs n E V char t else Some t)
       (character_set V) s = Some t"
    and s': "s' = save_results E V (save_checkpoint E t)"
    by (rule extract_names_loop)
  have "visited_prefixes t \<subseteq> ?A"
  proof (rule for_each_invariant [where I = "\<lambda>t::extractor. visited_prefixes t \<subseteq> ?A", OF _ _ t])
    show "visited_prefixes s \<subseteq> ?A" by simp
  next
    fix x and u u' :: extractor
    assume x: "x \<in> set (character_set V)" and u: "visited_prefixes u \<subseteq> ?A"
      and b: "(if x \<notin> visited_prefixes u then dfs n E V x u else Some u) = Some u'"
    show "visited_prefixes u' \<subseteq> ?A"
    proof (cases "x \<in> visited_prefixes u")
      case True
      with b u show ?thesis by simp
    next
      case False
      with b have "dfs n E V x u = Some u'" by simp
      moreover have "x \<in> reachable (character_set V)" using x by (rule member_reachable)
      ultimately have "visited_prefixes u' \<subseteq> visited_prefixes u \<union> reachable (character_set V)"
        by (rule dfs_reachable)
      with u show ?thesis by auto
    qed
  qed
  then show ?thesis by (simp add: s' save_results_fields save_checkpoint_fields)
qed

lemma extract_names_returns:
  assumes "12 \<le> n"
  shows "\<exists>s'. extract_names n E V s = Some s'"
proof -
  have "\<exists>t. for_each (\<lambda>char t. if char \<notin> visited_prefixes t then dfs n E V char t else Some t)
       (character_set V) s = Some t \<and> True"
  proof (rule for_each_returns [where I = "\<lambda>t::extractor. True"])
    fix x :: string and t :: extractor
    have "Suc (11 - length x) \<le> n" using assms by simp
    from dfs_returns [OF this] obtain t' where "dfs n E V x t = Some t'" by blast
    then show "\<exists>t'. (if x \<notin> visited_prefixes t then dfs n E V x t else Some t) = Some t' \<and> True"
      by simp
  qed simp
  then show ?thesis by (auto simp: extract_names_def)
qed

lemma extract_names_bound:
  assumes "extract_names n E V s = Some s'"
  shows "card (visited_prefixes s' - visited_prefixes s) \<le> 11 * length (character_set V) ^ 10"
proof (cases "character_set V = []")
  case True
  with assms show ?thesis
    by (auto simp: extract_names_def save_results_fields save_checkpoint_fields)
next
  case False
  then have k: "1 \<le> length (character_set V)" by (cases "character_set V") auto
  have "visited_prefixes s' - visited_prefixes s \<subseteq> reachable (character_set V)"
    using extract_names_reachable [OF assms] by auto
  then have "card (visited_prefixes s' - visited_prefixes s) \<le> card (reachable (character_set V))"
    by (intro card_mono finite_reachable)
  also have "\<dots> \<le> (\<Sum>i\<le>10. length (character_set V) ^ i)" by (rule card_reachable)
  also have "\<dots> \<le> 11 * length (character_set V) ^ 10" using k by (rule geometric_bound)
  finally show ?thesis .
qed

section \<open>Properties of the traversal\<close>

text \<open>
  \<open>double_space\<close> is the substring test \<open>'  ' in prefix\<close>.
\<close>

lemma double_space_iff: "double_space p \<longleftrightarrow> (\<exists>xs ys. p = xs @ ''  '' @ ys)"
proof (induction p rule: double_space.induct)
  case (1 a b rest)
  show ?case
  proof
    assume "double_space (a # b # rest)"
    then consider "a = CHR '' ''" "b = CHR '' ''" | "double_space (b # rest)" by auto
    then show "\<exists>xs ys. a # b # rest = xs @ ''  '' @ ys"
    proof cases
      case 1
      then have "a # b # rest = [] @ ''  '' @ rest" by simp
      then show ?thesis by blast
    next
      case 2
      with 1 obtain xs ys where "b # rest = xs @ ''  '' @ ys" by blast
      then have "a # b # rest = (a # xs) @ ''  '' @ ys" by simp
      then show ?thesis by blast
    qed
  next
    assume "\<exists>xs ys. a # b # rest = xs @ ''  '' @ ys"
    then obtain xs ys where eq: "a # b # rest = xs @ ''  '' @ ys" by blast
    show "double_space (a # b # rest)"
    proof (cases xs)
      case Nil
      with eq show ?thesis by simp
    next
      case (Cons x xs')
      with eq have "b # rest = xs' @ ''  '' @ ys" by simp
      with 1 have "double_space (b # rest)" by blast
      then show ?thesis by simp
    qed
  qed
qed (auto simp: Cons_eq_append_conv)

text \<open>
  A prefix that is new and passes both filters is queried; the number of names returned
  decides between the loop over the character set and an immediate return.
\<close>

lemma dfs_accepted:
  assumes "prefix \<notin> visited_prefixes s" and "\<not> double_space prefix"
    and "\<not> ((startswith_space prefix \<or> endswith_space prefix) \<and> length prefix > 1)"
  shows "dfs (Suc n) E V prefix s =
     (if length (api E (length (queries s)) prefix) \<ge> max_results V
      then for_each (\<lambda>char t. if length (prefix @ char) \<le> 10
                                   then dfs n E V (prefix @ char) t else Some t)
             (character_set V)
             (snd (get_suggestions E prefix (s\<lparr>visited_prefixes := insert prefix (visited_prefixes s)\<rparr>)))
      else Some (snd (get_suggestions E prefix (s\<lparr>visited_prefixes := insert prefix (visited_prefixes s)\<rparr>))))"
  unfolding dfs_unvisited [OF assms(1)] using assms(2,3) by auto

text \<open>
  Runs of the model on a small variant (character set \<open>a\<close>, \<open>b\<close> and the empty
  string, page size 2) against a service that returns a full page for \<open>a\<close> only.
\<close>

lemma run_a:
  "dfs 2 \<lparr>api = (\<lambda>i q. if q = ''a'' then [''ab'', ''ac''] else [''a'']), fault_at = (\<lambda>j. OpenFails)\<rparr>
     \<lparr>version = ''t'', character_set = [''a'', ''b'', []], max_results = 2\<rparr> ''a'' (empty_extractor Absent Absent)
   = Some \<lparr>names = {''ab'', ''ac'', ''a''}, visited_prefixes = {''ab'', ''aa'', ''a''}, request_count = 3,
       checkpoint_file = Absent, results_file = Absent, queries = [''a'', ''aa'', ''ab''], writes = 0\<rparr>"
  by code_simp

lemma run_crawl:
  "extract_names 2 \<lparr>api = (\<lambda>i q. if q = ''a'' then [''ab'', ''ac''] else [''a'']), fault_at = (\<lambda>j. OpenFails)\<rparr>
     \<lparr>version = ''t'', character_set = [''a'', ''b'', []], max_results = 2\<rparr> (empty_extractor Absent Absent)
   = Some \<lparr>names = {''ab'', ''ac'', ''a''}, visited_prefixes = {[], ''b'', ''ab'', ''aa'', ''a''}, request_count = 5,
       checkpoint_file = Absent, results_file = Absent, queries = [''a'', ''aa'', ''ab'', ''b'', []], writes = 2\<rparr>"
  by code_simp




lemma accepted_prefix_queried:
  assumes a: "p \<notin> visited_prefixes t"
    and nr: "\<not> double_space p"
      "\<not> ((startswith_space p \<or> endswith_space p) \<and> length p > 1)"
    and d: "dfs (Suc n) E V p t = Some t'"
  shows "\<exists>rest. queries t' = queries t @ p # rest"
proof -
  let ?t2 = "snd (get_suggestions E p (t\<lparr>visited_prefixes := insert p (visited_prefixes t)\<rparr>))"
  have q2: "queries ?t2 = queries t @ [p]" by (simp add: get_suggestions_fields)
  have "t' = ?t2 \<or> grows ?t2 t'"
  proof (cases "length (api E (length (queries t)) p) \<ge> max_results V")
    case True
    with d have "for_each (\<lambda>char t. if length (p @ char) \<le> 10
                                   then dfs n E V (p @ char) t else Some t)
             (character_set V) ?t2 = Some t'"
      unfolding dfs_accepted [OF a nr] by simp
    then have "grows ?t2 t'" by (rule children_grow)
    then show ?thesis by blast
  next
    case False
    with d show ?thesis unfolding dfs_accepted [OF a nr] by simp
  qed
  then show ?thesis
  proof
    assume "t' = ?t2"
    with q2 show ?thesis by simp
  next
    assume "grows ?t2 t'"
    then obtain new where "queries t' = queries ?t2 @ new" by (auto simp: grows_def)
    with q2 show ?thesis by simp
  qed
qed

text \<open>
  C3. A new prefix with two consecutive spaces, or with a leading or trailing space and
  a length other than 1, is rejected: the call returns with the prefix added to the
  visited set and nothing else changed (no query sent, no name added, request count and
  files as before, no child explored). A new prefix that is not rejected is queried: the
  call returns, and the first query it sent is the prefix. \<open>"ab  c"\<close> and \<open>" a"\<close>
  are rejected; the single space is not, so it is queried.
\<close>

theorem C3_rejected_prefix:
  "(prefix \<notin> visited_prefixes s \<longrightarrow>
      double_space prefix \<or> (startswith_space prefix \<or> endswith_space prefix) \<and> length prefix \<noteq> 1 \<longrightarrow>
      dfs (Suc n) E V prefix s = Some (s\<lparr>visited_prefixes := insert prefix (visited_prefixes s)\<rparr>))
   \<and> (p \<notin> visited_prefixes t \<longrightarrow>
        \<not> (double_space p \<or> (startswith_space p \<or> endswith_space p) \<and> length p \<noteq> 1) \<longrightarrow>
        11 \<le> m \<longrightarrow>
        (\<exists>t'. dfs (Suc m) E V p t = Some t' \<and> (\<exists>rest. queries t' = queries t @ p # rest)))
   \<and> ('' '' \<notin> visited_prefixes t \<longrightarrow> 11 \<le> m \<longrightarrow>
        (\<exists>t'. dfs (Suc m) E V '' '' t = Some t' \<and> (\<exists>rest. queries t' = queries t @ '' '' # rest)))
   \<and> (double_space ''ab  c'' \<and> startswith_space '' a'' \<and> length '' a'' \<noteq> 1)
   \<and> \<not> (double_space '' '' \<or> (startswith_space '' '' \<or> endswith_space '' '') \<and> length '' '' \<noteq> 1)"
proof (intro conjI impI)
  assume a: "prefix \<notin> visited_prefixes s"
    and r: "double_space prefix \<or> (startswith_space prefix \<or> endswith_space prefix) \<and> length prefix \<noteq> 1"
  have "startswith_space prefix \<or> endswith_space prefix \<Longrightarrow> 1 \<le> length prefix"
    by (cases prefix) (auto simp: startswith_space_def endswith_space_def)
  with r have "double_space prefix \<or> (startswith_space prefix \<or> endswith_space prefix) \<and> length prefix > 1"
    by auto
  then show "dfs (Suc n) E V prefix s = Some (s\<lparr>visited_prefixes := insert prefix (visited_prefixes s)\<rparr>)"
    unfolding dfs_unvisited [OF a] by simp
next
  assume a: "p \<notin> visited_prefixes t"
    and r: "\<not> (double_space p \<or> (startswith_space p \<or> endswith_space p) \<and> length p \<noteq> 1)"
    and m: "11 \<le> m"
  from r have nr: "\<not> double_space p"
    "\<not> ((startswith_space p \<or> endswith_space p) \<and> length p > 1)"
    by auto
  have "Suc (11 - length p) \<le> Suc m" using m by simp
  then obtain t' where run: "dfs (Suc m) E V p t = Some t'"
    using dfs_returns by blast
  from accepted_prefix_queried [OF a nr run] run
  show "\<exists>t'. dfs (Suc m) E V p t = Some t' \<and> (\<exists>rest. queries t' = queries t @ p # rest)"
    by blast
next
  assume a: "'' '' \<notin> visited_prefixes t" and m: "11 \<le> m"
  have nr: "\<not> double_space '' ''"
    "\<not> ((startswith_space '' '' \<or> endswith_space '' '') \<and> length '' '' > 1)"
    by simp_all
  have "Suc (11 - length '' '') \<le> Suc m" using m by simp
  then obtain t' where run: "dfs (Suc m) E V '' '' t = Some t'"
    using dfs_returns by blast
  from accepted_prefix_queried [OF a nr run] run
  show "\<exists>t'. dfs (Suc m) E V '' '' t = Some t' \<and> (\<exists>rest. queries t' = queries t @ '' '' # rest)"
    by blast
qed (simp_all add: startswith_space_def endswith_space_def)

theorem C3_rejected_prefix_witness:
  "dfs (Suc 0) \<lparr>api = (\<lambda>i q. if q = ''a'' then [''ab'', ''ac''] else [''a'']), fault_at = (\<lambda>j. OpenFails)\<rparr> \<lparr>version = ''t'', character_set = [''a'', ''b'', []], max_results = 2\<rparr> ''ab  c'' (empty_extractor Absent Absent)
     = Some ((empty_extractor Absent Absent)\<lparr>visited_prefixes := {''ab  c''}\<rparr>)
   \<and> dfs (Suc 0) \<lparr>api = (\<lambda>i q. if q = ''a'' then [''ab'', ''ac''] else [''a'']), fault_at = (\<lambda>j. OpenFails)\<rparr> \<lparr>version = ''t'', character_set = [''a'', ''b'', []], max_results = 2\<rparr> '' a'' (empty_extractor Absent Absent)
     = Some ((empty_extractor Absent Absent)\<lparr>visited_prefixes := {'' a''}\<rparr>)
   \<and> (\<exists>t'. dfs (Suc 11) \<lparr>api = (\<lambda>i q. if q = ''a'' then [''ab'', ''ac''] else [''a'']), fault_at = (\<lambda>j. OpenFails)\<rparr> \<lparr>version = ''t'', character_set = [''a'', ''b'', []], max_results = 2\<rparr> '' '' (empty_extractor Absent Absent) = Some t'
        \<and> (\<exists>rest. queries t' = '' '' # rest))"
proof -
  let ?E = "\<lparr>api = (\<lambda>i q. if q = ''a'' then [''ab'', ''ac''] else [''a'']), fault_at = (\<lambda>j. OpenFails)\<rparr>"
  let ?V = "\<lparr>version = ''t'', character_set = [''a'', ''b'', []], max_results = 2\<rparr>"
  let ?s0 = "empty_extractor Absent Absent"
  have s0: "visited_prefixes ?s0 = {}" "queries ?s0 = []"
    by (simp_all add: empty_extractor_def)
  have "''ab  c'' \<notin> visited_prefixes ?s0"
    "double_space ''ab  c'' \<or> (startswith_space ''ab  c'' \<or> endswith_space ''ab  c'') \<and> length ''ab  c'' \<noteq> 1"
    by (simp_all add: s0)
  with C3_rejected_prefix [of "''ab  c''" ?s0 0 ?E ?V]
  have r1: "dfs (Suc 0) ?E ?V ''ab  c'' ?s0 = Some (?s0\<lparr>visited_prefixes := {''ab  c''}\<rparr>)"
    by (simp add: s0 del: dfs.simps)
  have "'' a'' \<notin> visited_prefixes ?s0"
    "double_space '' a'' \<or> (startswith_space '' a'' \<or> endswith_space '' a'') \<and> length '' a'' \<noteq> 1"
    by (simp_all add: s0 startswith_space_def)
  with C3_rejected_prefix [of "'' a''" ?s0 0 ?E ?V]
  have r2: "dfs (Suc 0) ?E ?V '' a'' ?s0 = Some (?s0\<lparr>visited_prefixes := {'' a''}\<rparr>)"
    by (simp add: s0 del: dfs.simps)
  have "'' '' \<notin> visited_prefixes ?s0" "(11::nat) \<le> 11"
    by (simp_all add: s0)
  with C3_rejected_prefix [of _ _ _ ?E ?V _ ?s0 11]
  have r3: "\<exists>t'. dfs (Suc 11) ?E ?V '' '' ?s0 = Some t' \<and> (\<exists>rest. queries t' = '' '' # rest)"
    by (simp add: s0 del: dfs.simps)
  from r1 r2 r3 show ?thesis by blast
qed

text \<open>
  C5. The traversal returns for every starting state, prefix, variant and service: a
  depth of twelve nested calls is always enough, both for \<open>_dfs\<close> and for
  \<open>extract_names\<close>, and more fuel never changes a result. With \<open>k\<close> the size of
  the character set, a crawl adds at most \<open>11 * k ^ 10\<close> prefixes to the visited set
  and sends at most as many queries. Nothing is assumed of the character set: it may
  hold the empty string, as that of v3 does.
\<close>

theorem C5_termination:
  "(12 \<le> n \<longrightarrow> (\<exists>s'. dfs n E V prefix s = Some s') \<and> (\<exists>s'. extract_names n E V s = Some s'))
   \<and> (dfs n E V prefix s = Some t \<longrightarrow> n \<le> m \<longrightarrow> dfs m E V prefix s = Some t)
   \<and> (extract_names n E V s = Some s' \<longrightarrow>
        finite (visited_prefixes s' - visited_prefixes s)
        \<and> card (visited_prefixes s' - visited_prefixes s) \<le> 11 * length (character_set V) ^ 10
        \<and> length (queries s') - length (queries s) \<le> 11 * length (character_set V) ^ 10)"
proof (intro conjI impI)
  assume "12 \<le> n"
  then have "Suc (11 - length prefix) \<le> n" by simp
  then show "\<exists>s'. dfs n E V prefix s = Some s'" by (rule dfs_returns)
  from \<open>12 \<le> n\<close> show "\<exists>s'. extract_names n E V s = Some s'" by (rule extract_names_returns)
next
  assume "dfs n E V prefix s = Some t" and "n \<le> m"
  then show "dfs m E V prefix s = Some t" by (rule dfs_fuel_mono)
next
  assume run: "extract_names n E V s = Some s'"
  have sub: "visited_prefixes s' - visited_prefixes s \<subseteq> reachable (character_set V)"
    using extract_names_reachable [OF run] by auto
  then show fin: "finite (visited_prefixes s' - visited_prefixes s)"
    by (rule finite_subset) (rule finite_reachable)
  show bound: "card (visited_prefixes s' - visited_prefixes s) \<le> 11 * length (character_set V) ^ 10"
    using run by (rule extract_names_bound)
  from extract_names_grows [OF run] obtain new where new: "queries s' = queries s @ new"
    "distinct new" "set new \<inter> visited_prefixes s = {}" "set new \<subseteq> visited_prefixes s'"
    by (auto simp: grows_def)
  have "length new = card (set new)" using new(2) by (simp add: distinct_card)
  also have "\<dots> \<le> card (visited_prefixes s' - visited_prefixes s)"
    using new(3,4) by (intro card_mono fin) auto
  finally show "length (queries s') - length (queries s) \<le> 11 * length (character_set V) ^ 10"
    using bound new(1) by simp
qed

theorem C5_termination_witness:
  "[] \<in> set (character_set V3Extractor)
   \<and> (\<exists>s'. extract_names 12 \<lparr>api = (\<lambda>i q. replicate 15 q), fault_at = (\<lambda>j. NoFault)\<rparr> V3Extractor
            (empty_extractor Absent Absent) = Some s'
          \<and> card (visited_prefixes s' - visited_prefixes (empty_extractor Absent Absent))
              \<le> 11 * length (character_set V3Extractor) ^ 10)"
proof -
  let ?E = "\<lparr>api = (\<lambda>i q. replicate 15 q), fault_at = (\<lambda>j. NoFault)\<rparr>"
  have "(12::nat) \<le> 12" by simp
  with C5_termination [of 12 ?E V3Extractor "[]" "(empty_extractor Absent Absent)"]
  obtain s' where run: "extract_names 12 ?E V3Extractor (empty_extractor Absent Absent) = Some s'"
    by blast
  with C5_termination [of 12 ?E V3Extractor "[]" "(empty_extractor Absent Absent)" _ _ s']
  have "card (visited_prefixes s' - visited_prefixes (empty_extractor Absent Absent))
      \<le> 11 * length (character_set V3Extractor) ^ 10"
    by blast
  moreover have "[] \<in> set (character_set V3Extractor)"
    by (simp add: V3Extractor_def)
  ultimately show ?thesis using run by blast
qed

text \<open>
  C6. A query never shrinks the names or the visited prefixes and increases the request
  count; so across a whole \<open>_dfs\<close> call and a whole crawl the two sets only grow and
  the request count never decreases.
\<close>

theorem C6_monotone:
  "(names s \<subseteq> names (snd (get_suggestions E query s))
      \<and> visited_prefixes s \<subseteq> visited_prefixes (snd (get_suggestions E query s))
      \<and> request_count s < request_count (snd (get_suggestions E query s)))
   \<and> (dfs n E V prefix s = Some s' \<longrightarrow>
        names s \<subseteq> names s' \<and> visited_prefixes s \<subseteq> visited_prefixes s'
        \<and> request_count s \<le> request_count s')
   \<and> (extract_names n E V s = Some s'' \<longrightarrow>
        names s \<subseteq> names s'' \<and> visited_prefixes s \<subseteq> visited_prefixes s''
        \<and> request_count s \<le> request_count s'')"
  using dfs_grows [of n E V prefix s s'] extract_names_grows [of n E V s s'']
  by (auto simp: grows_def get_suggestions_fields)

theorem C6_monotone_witness:
  "names (empty_extractor Absent Absent) \<subseteq> names \<lparr>names = {''ab'', ''ac'', ''a''}, visited_prefixes = {''ab'', ''aa'', ''a''}, request_count = 3,
       checkpoint_file = Absent, results_file = Absent, queries = [''a'', ''aa'', ''ab''], writes = 0\<rparr>
   \<and> visited_prefixes (empty_extractor Absent Absent) \<subseteq> visited_prefixes \<lparr>names = {''ab'', ''ac'', ''a''}, visited_prefixes = {''ab'', ''aa'', ''a''}, request_count = 3,
       checkpoint_file = Absent, results_file = Absent, queries = [''a'', ''aa'', ''ab''], writes = 0\<rparr>
   \<and> request_count (empty_extractor Absent Absent) \<le> request_count \<lparr>names = {''ab'', ''ac'', ''a''}, visited_prefixes = {''ab'', ''aa'', ''a''}, request_count = 3,
       checkpoint_file = Absent, results_file = Absent, queries = [''a'', ''aa'', ''ab''], writes = 0\<rparr>
   \<and> request_count (empty_extractor Absent Absent) \<le> request_count \<lparr>names = {''ab'', ''ac'', ''a''}, visited_prefixes = {[], ''b'', ''ab'', ''aa'', ''a''}, request_count = 5,
       checkpoint_file = Absent, results_file = Absent, queries = [''a'', ''aa'', ''ab'', ''b'', []], writes = 2\<rparr>"
  using C6_monotone [of "(empty_extractor Absent Absent)"
      "\<lparr>api = (\<lambda>i q. if q = ''a'' then [''ab'', ''ac''] else [''a'']), fault_at = (\<lambda>j. OpenFails)\<rparr>" "''a''" 2 "\<lparr>version = ''t'', character_set = [''a'', ''b'', []], max_results = 2\<rparr>" "''a''"
      "\<lparr>names = {''ab'', ''ac'', ''a''}, visited_prefixes = {''ab'', ''aa'', ''a''}, request_count = 3,
       checkpoint_file = Absent, results_file = Absent, queries = [''a'', ''aa'', ''ab''], writes = 0\<rparr>"
      "\<lparr>names = {''ab'', ''ac'', ''a''}, visited_prefixes = {[], ''b'', ''ab'', ''aa'', ''a''}, request_count = 5,
       checkpoint_file = Absent, results_file = Absent, queries = [''a'', ''aa'', ''ab'', ''b'', []], writes = 2\<rparr>"]
    run_a run_crawl
  by simp

text \<open>
  C7. \<open>_dfs\<close> on a prefix that is already visited returns the state as it is: no
  query, no change. The queries sent by a \<open>_dfs\<close> call or by a crawl are pairwise
  distinct and none of them was visited at the start: a visited prefix is never
  queried again.
\<close>

theorem C7_visited_noop:
  "(prefix \<in> visited_prefixes s \<longrightarrow> dfs (Suc n) E V prefix s = Some s)
   \<and> (dfs m E V p s = Some s' \<longrightarrow>
        (\<exists>new. queries s' = queries s @ new \<and> distinct new \<and> set new \<inter> visited_prefixes s = {}))
   \<and> (extract_names m E V s = Some s'' \<longrightarrow>
        (\<exists>new. queries s'' = queries s @ new \<and> distinct new \<and> set new \<inter> visited_prefixes s = {}))"
  using dfs_grows [of m E V p s s'] extract_names_grows [of m E V s s'']
  by (auto simp: grows_def)

theorem C7_visited_noop_witness:
  "dfs 1 \<lparr>api = (\<lambda>i q. if q = ''a'' then [''ab'', ''ac''] else [''a'']), fault_at = (\<lambda>j. OpenFails)\<rparr>
     \<lparr>version = ''t'', character_set = [''a'', ''b'', []], max_results = 2\<rparr> ''a''
     \<lparr>names = {''ab'', ''ac'', ''a''}, visited_prefixes = {''ab'', ''aa'', ''a''}, request_count = 3,
       checkpoint_file = Absent, results_file = Absent, queries = [''a'', ''aa'', ''ab''], writes = 0\<rparr>
   = Some \<lparr>names = {''ab'', ''ac'', ''a''}, visited_prefixes = {''ab'', ''aa'', ''a''}, request_count = 3,
       checkpoint_file = Absent, results_file = Absent, queries = [''a'', ''aa'', ''ab''], writes = 0\<rparr>
   \<and> (\<exists>new. queries \<lparr>names = {''ab'', ''ac'', ''a''}, visited_prefixes = {[], ''b'', ''ab'', ''aa'', ''a''}, request_count = 5,
       checkpoint_file = Absent, results_file = Absent, queries = [''a'', ''aa'', ''ab'', ''b'', []], writes = 2\<rparr> = queries (empty_extractor Absent Absent) @ new \<and> distinct new
          \<and> set new \<inter> visited_prefixes (empty_extractor Absent Absent) = {})"
  using C7_visited_noop [of "''a''"
      "\<lparr>names = {''ab'', ''ac'', ''a''}, visited_prefixes = {''ab'', ''aa'', ''a''}, request_count = 3,
       checkpoint_file = Absent, results_file = Absent, queries = [''a'', ''aa'', ''ab''], writes = 0\<rparr>" 0
      "\<lparr>api = (\<lambda>i q. if q = ''a'' then [''ab'', ''ac''] else [''a'']), fault_at = (\<lambda>j. OpenFails)\<rparr>" "\<lparr>version = ''t'', character_set = [''a'', ''b'', []], max_results = 2\<rparr>" 2 "''a''" _ "\<lparr>names = {''ab'', ''ac'', ''a''}, visited_prefixes = {[], ''b'', ''ab'', ''aa'', ''a''}, request_count = 5,
       checkpoint_file = Absent, results_file = Absent, queries = [''a'', ''aa'', ''ab'', ''b'', []], writes = 2\<rparr>"]
    C7_visited_noop [of "''a''"
      "(empty_extractor Absent Absent)" 0
      "\<lparr>api = (\<lambda>i q. if q = ''a'' then [''ab'', ''ac''] else [''a'']), fault_at = (\<lambda>j. OpenFails)\<rparr>" "\<lparr>version = ''t'', character_set = [''a'', ''b'', []], max_results = 2\<rparr>" 2 "''a''" _ "\<lparr>names = {''ab'', ''ac'', ''a''}, visited_prefixes = {[], ''b'', ''ab'', ''aa'', ''a''}, request_count = 5,
       checkpoint_file = Absent, results_file = Absent, queries = [''a'', ''aa'', ''ab'', ''b'', []], writes = 2\<rparr>"]
    run_crawl
  by simp

end
